theory Spec2Isabelle
  imports Main "HOL-Library.Multiset"
begin

section \<open>Data model of \<^verbatim>\<open>rag_run.py\<close>\<close>

text \<open>
  A corpus entry of \<^verbatim>\<open>foods.json\<close> is a Python dict with the keys \<^verbatim>\<open>id\<close> and
  \<^verbatim>\<open>text\<close> and the optional keys \<^verbatim>\<open>region\<close> and \<^verbatim>\<open>type\<close>. The test
  \<^verbatim>\<open>"region" in item\<close> is a test for the presence of the key, which is \<open>Some\<close> here; the
  string under \<open>Some\<close> is the value as the f-string formats it. A string is a list of
  characters; a \<^typ>\<open>char\<close> stands for a code point below 256.
\<close>

record item =
  item_id :: string
  item_text :: string
  item_region :: "string option"
  item_type :: "string option"

text \<open>
  What \<^verbatim>\<open>requests.post\<close> does when it is called: it raises, or it returns a response
  with a status code and a body. The body is \<open>None\<close> when it is not a JSON object, and
  the fields of the object otherwise. A request times out while it connects or while it
  waits for the answer.
\<close>

datatype 'v reply =
    ConnectionError
  | ConnectTimeout
  | ReadTimeout
  | OtherRequestFailure
  | Response nat "(string \<times> 'v) list option"

datatype py_exception =
    RequestsConnectionError
  | RequestsConnectTimeout
  | RequestsReadTimeout
  | RequestException
  | HTTPError nat
  | JSONDecodeError
  | KeyError string
  | DuplicateIDError

text \<open>
  The classes of \<^verbatim>\<open>requests.exceptions\<close> that the handlers name: \<^verbatim>\<open>ConnectTimeout\<close>
  is a subclass of both \<^verbatim>\<open>ConnectionError\<close> and \<^verbatim>\<open>Timeout\<close>, \<^verbatim>\<open>ReadTimeout\<close> of
  \<^verbatim>\<open>Timeout\<close> only. An \<^verbatim>\<open>except\<close> clause takes every instance of its class, and
  the first clause that matches wins.
\<close>

fun is_ConnectionError :: "py_exception \<Rightarrow> bool" where
  "is_ConnectionError RequestsConnectionError = True"
| "is_ConnectionError RequestsConnectTimeout = True"
| "is_ConnectionError e = False"

fun is_Timeout :: "py_exception \<Rightarrow> bool" where
  "is_Timeout RequestsConnectTimeout = True"
| "is_Timeout RequestsReadTimeout = True"
| "is_Timeout e = False"

text \<open>
  How a run of Python code ends when it does not return: \<^verbatim>\<open>sys.exit(n)\<close> raises
  \<^verbatim>\<open>SystemExit\<close>, which no \<^verbatim>\<open>except Exception\<close> clause catches, and an
  exception that no handler catches leaves the code as it is.
\<close>

datatype abort = SystemExit int | Uncaught py_exception

text \<open>Lines printed on standard output (the source's texts contain emoji).\<close>

datatype message =
    CannotConnect
  | PleaseEnsureOllama
  | RequestTimedOut
  | ErrorGettingEmbedding py_exception
  | AddingNewDocuments nat
  | AllDocumentsPresent

section \<open>Embedding client\<close>

text \<open>
  \<^verbatim>\<open>response.raise_for_status()\<close> raises \<^verbatim>\<open>HTTPError\<close> for a status from 400 to
  599; \<^verbatim>\<open>response.json()[key]\<close> raises when the body is not JSON or has no such key.
\<close>

fun post_json :: "'v reply \<Rightarrow> string \<Rightarrow> py_exception + 'v" where
  "post_json ConnectionError key = Inl RequestsConnectionError"
| "post_json ConnectTimeout key = Inl RequestsConnectTimeout"
| "post_json ReadTimeout key = Inl RequestsReadTimeout"
| "post_json OtherRequestFailure key = Inl RequestException"
| "post_json (Response status body) key =
     (if 400 \<le> status \<and> status < 600 then Inl (HTTPError status)
      else case body of
             None \<Rightarrow> Inl JSONDecodeError
           | Some obj \<Rightarrow>
               (case map_of obj key of
                  None \<Rightarrow> Inl (KeyError key)
                | Some v \<Rightarrow> Inr v))"

text \<open>
  \<^verbatim>\<open>get_embedding(text)\<close>, given the reply of the embedding service to this request.
  The result is the lines printed and either the value returned or the way the call
  ends otherwise.
\<close>

definition get_embedding :: "'e reply \<Rightarrow> message list \<times> (abort + 'e)" where
  "get_embedding r =
     (case post_json r ''embedding'' of
        Inr emb \<Rightarrow> ([], Inr emb)
      | Inl e \<Rightarrow>
          if is_ConnectionError e
          then ([CannotConnect, PleaseEnsureOllama], Inl (SystemExit 1))
          else if is_Timeout e then ([RequestTimedOut], Inl (SystemExit 1))
          else ([ErrorGettingEmbedding e], Inl (SystemExit 1)))"

section \<open>Enriched text\<close>

definition region_clause :: "string \<Rightarrow> string" where
  "region_clause r = '' This food is popular in '' @ r @ ''.''"

definition type_clause :: "string \<Rightarrow> string" where
  "type_clause t = '' It is a type of '' @ t @ ''.''"

text \<open>Lines 60 to 64: the text, extended in place by the two conditionals in turn.\<close>

definition enriched_text :: "item \<Rightarrow> string" where
  "enriched_text item =
     (let enriched = item_text item;
          enriched = (case item_region item of
                        Some r \<Rightarrow> enriched @ region_clause r
                      | None \<Rightarrow> enriched);
          enriched = (case item_type item of
                        Some t \<Rightarrow> enriched @ type_clause t
                      | None \<Rightarrow> enriched)
      in enriched)"

section \<open>Document index\<close>

text \<open>
  The collection of the vector store: its entries in the order of insertion, each an
  id, a document and an embedding.
\<close>

type_synonym 'e entry = "string \<times> string \<times> 'e"

type_synonym 'e collection = "'e entry list"

text \<open>\<^verbatim>\<open>collection.get()['ids']\<close>\<close>

definition collection_get_ids :: "'e collection \<Rightarrow> string list" where
  "collection_get_ids c = map fst c"

text \<open>
  Modelled from the spec: \<^verbatim>\<open>collection.add\<close> is the vector store's, not this
  repository's. Section 4.2 has the index not deduplicate and has the insertion of an id
  that is already stored be an error of the underlying store; an insertion of a new id
  is stored, and \<^verbatim>\<open>listIds\<close> reflects it.
\<close>

definition collection_add ::
    "'e collection \<Rightarrow> string \<Rightarrow> 'e \<Rightarrow> string \<Rightarrow> py_exception + 'e collection" where
  "collection_add c document embedding i =
     (if i \<in> set (collection_get_ids c) then Inl DuplicateIDError
      else Inr (c @ [(i, document, embedding)]))"

section \<open>Ingestion step\<close>

text \<open>
  The state of the module-level code of lines 53 to 74: the collection, and what the
  code has done so far (the lines printed, the texts sent to the embedding service, the
  arguments of each call of \<^verbatim>\<open>collection.add\<close>), and how it ended if it did not reach
  its last line.
\<close>

record 'e run =
  run_index :: "'e collection"
  run_printed :: "message list"
  run_embed_calls :: "string list"
  run_add_calls :: "'e entry list"
  run_abort :: "abort option"

text \<open>Line 54.\<close>

definition new_items :: "item list \<Rightarrow> 'e collection \<Rightarrow> item list" where
  "new_items food_data c =
     (let existing_ids = set (collection_get_ids c)
      in filter (\<lambda>item. item_id item \<notin> existing_ids) food_data)"

text \<open>
  The loop of lines 58 to 72. The embedding service is a function \<open>svc\<close>: \<open>svc n text\<close>
  is its reply to the request for \<open>text\<close> when \<open>n\<close> requests went before it. The source
  sets no bound on what the service does from one request to the next.
\<close>

fun ingest_loop :: "(nat \<Rightarrow> string \<Rightarrow> 'e reply) \<Rightarrow> item list \<Rightarrow> 'e run \<Rightarrow> 'e run" where
  "ingest_loop svc [] st = st"
| "ingest_loop svc (item # rest) st =
     (let enriched = enriched_text item;
          (msgs, r) = get_embedding (svc 0 enriched);
          st = st\<lparr>run_embed_calls := run_embed_calls st @ [enriched],
                  run_printed := run_printed st @ msgs\<rparr>
      in case r of
           Inl a \<Rightarrow> st\<lparr>run_abort := Some a\<rparr>
         | Inr emb \<Rightarrow>
             (let st = st\<lparr>run_add_calls :=
                             run_add_calls st @ [(item_id item, item_text item, emb)]\<rparr>
              in case collection_add (run_index st) (item_text item) emb (item_id item) of
                   Inl ex \<Rightarrow> st\<lparr>run_abort := Some (Uncaught ex)\<rparr>
                 | Inr c \<Rightarrow> ingest_loop (\<lambda>n. svc (Suc n)) rest (st\<lparr>run_index := c\<rparr>)))"

text \<open>Lines 53 to 74, from the loaded corpus and the collection as it is found.\<close>

definition ingestion :: "(nat \<Rightarrow> string \<Rightarrow> 'e reply) \<Rightarrow> item list \<Rightarrow> 'e collection \<Rightarrow> 'e run" where
  "ingestion svc food_data c =
     (let new = new_items food_data c
      in if new \<noteq> []
         then ingest_loop svc new
                \<lparr>run_index = c, run_printed = [AddingNewDocuments (length new)],
                 run_embed_calls = [], run_add_calls = [], run_abort = None\<rparr>
         else \<lparr>run_index = c, run_printed = [AllDocumentsPresent],
               run_embed_calls = [], run_add_calls = [], run_abort = None\<rparr>)"

section \<open>Nearest-neighbour query\<close>

text \<open>
  Modelled from the spec: \<^verbatim>\<open>collection.query\<close> is the vector store's, not this
  repository's. Section 4.2 has it return the \<open>k\<close> nearest stored entries by vector
  distance, ranked ascending by distance, and all entries, without an error, when fewer
  than \<open>k\<close> are stored. The distance is a parameter: \<open>dist q e\<close> is the distance of a
  stored embedding \<open>e\<close> from the query \<open>q\<close>, in any linear order. Entries at the same
  distance keep the order of their insertion.
\<close>

definition collection_query ::
    "('e \<Rightarrow> 'e \<Rightarrow> 'd::linorder) \<Rightarrow> 'e collection \<Rightarrow> 'e \<Rightarrow> nat \<Rightarrow> 'e entry list" where
  "collection_query dist c query_embedding n_results =
     take n_results (sort_key (\<lambda>(i, document, e). dist query_embedding e) c)"

section \<open>Answer pipeline\<close>

text \<open>
  \<^verbatim>\<open>str.strip()\<close> removes the white space at both ends; below code point 256 the
  white space of Python is the characters 9 to 13, 28 to 32, 133 and 160.
\<close>

definition is_space :: "char \<Rightarrow> bool" where
  "is_space ch \<longleftrightarrow>
     (of_char ch :: nat) \<in> {9, 10, 11, 12, 13, 28, 29, 30, 31, 32, 133, 160}"

definition strip :: "string \<Rightarrow> string" where
  "strip s = rev (dropWhile is_space (rev (dropWhile is_space s)))"

definition newline :: string where
  "newline = [CHR 0x0A]"

text \<open>\<^verbatim>\<open>sep.join(xs)\<close>\<close>

fun join :: "string \<Rightarrow> string list \<Rightarrow> string" where
  "join sep [] = []"
| "join sep [x] = x"
| "join sep (x # y # ys) = x @ sep @ join sep (y # ys)"

text \<open>The f-string of lines 161 to 167.\<close>

definition build_prompt :: "string \<Rightarrow> string \<Rightarrow> string" where
  "build_prompt context question =
     ''Use the following context to answer the question.'' @ newline
     @ newline
     @ ''Context:'' @ newline
     @ context @ newline
     @ newline
     @ ''Question: '' @ question @ newline
     @ ''Answer:''"

text \<open>The message boxes of the form.\<close>

datatype dialog =
    EnterQuestionWarning
  | ConnectionErrorDialog
  | TimeoutErrorDialog
  | UnexpectedErrorDialog py_exception

text \<open>
  What a press of the Ask button has done when it is over: the lines printed, the texts
  sent to the embedding service, the queries of the collection, the prompts sent to the
  generation service, the message boxes shown, the block appended to the output pane
  (the question, the sources with their ids, the answer), and how the code ended if it
  did not reach its last line. The widgets' labels and states are left out.
\<close>

record 'e ask =
  ask_printed :: "message list"
  ask_embed_calls :: "string list"
  ask_query_calls :: "('e \<times> nat) list"
  ask_generate_calls :: "string list"
  ask_dialogs :: "dialog list"
  ask_output :: "(string \<times> (string \<times> string) list \<times> string) option"
  ask_abort :: "abort option"

text \<open>
  \<^verbatim>\<open>_process_question\<close>, lines 131 to 204. The three handlers catch what
  \<^verbatim>\<open>requests.post\<close>, \<^verbatim>\<open>raise_for_status\<close> and \<^verbatim>\<open>json\<close> raise in the generation
  request; \<^verbatim>\<open>SystemExit\<close> from \<^verbatim>\<open>get_embedding\<close> is no \<^verbatim>\<open>Exception\<close> and passes
  them.
\<close>

definition process_question ::
    "(string \<Rightarrow> 'e reply) \<Rightarrow> (string \<Rightarrow> string reply) \<Rightarrow> ('e \<Rightarrow> 'e \<Rightarrow> 'd::linorder)
     \<Rightarrow> 'e collection \<Rightarrow> string \<Rightarrow> 'e ask" where
  "process_question emb_svc gen_svc dist c question =
     (let (msgs, r) = get_embedding (emb_svc question);
          st = \<lparr>ask_printed = msgs, ask_embed_calls = [question], ask_query_calls = [],
                ask_generate_calls = [], ask_dialogs = [], ask_output = None,
                ask_abort = None\<rparr>
      in case r of
           Inl a \<Rightarrow> st\<lparr>ask_abort := Some a\<rparr>
         | Inr q_emb \<Rightarrow>
             (let results = collection_query dist c q_emb 3;
                  st = st\<lparr>ask_query_calls := [(q_emb, 3)]\<rparr>;
                  top_docs = map (\<lambda>(i, document, e). document) results;
                  top_ids = map (\<lambda>(i, document, e). i) results;
                  context = join newline top_docs;
                  prompt = build_prompt context question;
                  st = st\<lparr>ask_generate_calls := [prompt]\<rparr>
              in case post_json (gen_svc prompt) ''response'' of
                   Inr answer \<Rightarrow>
                     st\<lparr>ask_output := Some (question, zip top_ids top_docs, strip answer)\<rparr>
                 | Inl e \<Rightarrow>
                     if is_ConnectionError e
                     then st\<lparr>ask_dialogs := [ConnectionErrorDialog]\<rparr>
                     else if is_Timeout e then st\<lparr>ask_dialogs := [TimeoutErrorDialog]\<rparr>
                     else st\<lparr>ask_dialogs := [UnexpectedErrorDialog e]\<rparr>))"

text \<open>
  \<^verbatim>\<open>ask_question\<close>, lines 116 to 129, from the content of the entry field. The thread it
  starts runs \<^verbatim>\<open>_process_question\<close> once; here it is a call.
\<close>

definition ask_question ::
    "(string \<Rightarrow> 'e reply) \<Rightarrow> (string \<Rightarrow> string reply) \<Rightarrow> ('e \<Rightarrow> 'e \<Rightarrow> 'd::linorder)
     \<Rightarrow> 'e collection \<Rightarrow> string \<Rightarrow> 'e ask" where
  "ask_question emb_svc gen_svc dist c entry =
     (let question = strip entry
      in if question = []
         then \<lparr>ask_printed = [], ask_embed_calls = [], ask_query_calls = [],
               ask_generate_calls = [], ask_dialogs = [EnterQuestionWarning],
               ask_output = None, ask_abort = None\<rparr>
         else process_question emb_svc gen_svc dist c question)"

section \<open>Process and threads\<close>






section \<open>Properties of the enriched text\<close>




text \<open>
  C4. The enriched string is the record's text followed by the region clause when the
  record has a region and then by the type clause when it has a type; it is the text
  itself when the record has neither.
\<close>

theorem enriched_text_clauses:
  "enriched_text item =
     item_text item
       @ (case item_region item of Some r \<Rightarrow> region_clause r | None \<Rightarrow> [])
       @ (case item_type item of Some t \<Rightarrow> type_clause t | None \<Rightarrow> [])
   \<and> (item_region item = None \<and> item_type item = None
        \<longrightarrow> enriched_text item = item_text item)"
  by (simp add: enriched_text_def split: option.splits)

theorem enriched_text_clauses_witness:
  "enriched_text \<lparr>item_id = ''1'', item_text = ''Adobo is a stew.'',
                  item_region = None, item_type = None\<rparr> = ''Adobo is a stew.''
   \<and> enriched_text \<lparr>item_id = ''2'', item_text = ''Sushi.'',
                    item_region = Some ''Japan'', item_type = Some ''rice dish''\<rparr>
       = ''Sushi. This food is popular in Japan. It is a type of rice dish.''"
  using enriched_text_clauses
          [of "\<lparr>item_id = ''1'', item_text = ''Adobo is a stew.'',
                item_region = None, item_type = None\<rparr>"]
        enriched_text_clauses
          [of "\<lparr>item_id = ''2'', item_text = ''Sushi.'',
                item_region = Some ''Japan'', item_type = Some ''rice dish''\<rparr>"]
  by (simp add: region_clause_def type_clause_def)

section \<open>Properties of the ingestion step\<close>

lemma ingest_loop_exit:
  "snd (get_embedding (svc 0 (enriched_text item))) = Inl a \<Longrightarrow>
   ingest_loop svc (item # rest) st =
     st\<lparr>run_embed_calls := run_embed_calls st @ [enriched_text item],
        run_printed := run_printed st @ fst (get_embedding (svc 0 (enriched_text item))),
        run_abort := Some a\<rparr>"
  by (cases "get_embedding (svc 0 (enriched_text item))") (simp add: Let_def)

lemma ingest_loop_dup:
  "snd (get_embedding (svc 0 (enriched_text item))) = Inr emb \<Longrightarrow>
   item_id item \<in> set (collection_get_ids (run_index st)) \<Longrightarrow>
   ingest_loop svc (item # rest) st =
     st\<lparr>run_embed_calls := run_embed_calls st @ [enriched_text item],
        run_printed := run_printed st @ fst (get_embedding (svc 0 (enriched_text item))),
        run_add_calls := run_add_calls st @ [(item_id item, item_text item, emb)],
        run_abort := Some (Uncaught DuplicateIDError)\<rparr>"
  by (cases "get_embedding (svc 0 (enriched_text item))")
     (simp add: Let_def collection_add_def)

lemma ingest_loop_step:
  "snd (get_embedding (svc 0 (enriched_text item))) = Inr emb \<Longrightarrow>
   item_id item \<notin> set (collection_get_ids (run_index st)) \<Longrightarrow>
   ingest_loop svc (item # rest) st =
     ingest_loop (\<lambda>n. svc (Suc n)) rest
       (st\<lparr>run_embed_calls := run_embed_calls st @ [enriched_text item],
          run_printed := run_printed st @ fst (get_embedding (svc 0 (enriched_text item))),
          run_add_calls := run_add_calls st @ [(item_id item, item_text item, emb)],
          run_index := run_index st @ [(item_id item, item_text item, emb)]\<rparr>)"
  by (cases "get_embedding (svc 0 (enriched_text item))")
     (simp add: Let_def collection_add_def)


lemma ingest_loop_shape:
  "\<exists>embs. length embs \<le> length items
     \<and> run_index (ingest_loop svc items st)
         = run_index st @ map (\<lambda>(r, e). (item_id r, item_text r, e)) (zip items embs)
     \<and> (\<forall>j<length embs. snd (get_embedding (svc j (enriched_text (items ! j)))) = Inr (embs ! j))
     \<and> (\<forall>j<length embs. item_id (items ! j) \<notin> set (collection_get_ids (run_index st)))
     \<and> distinct (map item_id (take (length embs) items))
     \<and> (run_abort (ingest_loop svc items st) = None \<longrightarrow>
          length embs = length items
          \<and> run_add_calls (ingest_loop svc items st)
              = run_add_calls st @ map (\<lambda>(r, e). (item_id r, item_text r, e)) (zip items embs))"
proof (induction items arbitrary: svc st)
  case Nil
  show ?case by simp
next
  case (Cons item rest)
  show ?case
  proof (cases "snd (get_embedding (svc 0 (enriched_text item)))")
    case (Inl a)
    show ?thesis
      by (rule exI [of _ "[]"]) (simp del: ingest_loop.simps add: ingest_loop_exit [of svc item, OF Inl])
  next
    case (Inr emb)
    show ?thesis
    proof (cases "item_id item \<in> set (collection_get_ids (run_index st))")
      case True
      show ?thesis
        by (rule exI [of _ "[]"]) (simp del: ingest_loop.simps add: ingest_loop_dup [of svc item, OF Inr True])
    next
      case False
      let ?st = "st\<lparr>run_embed_calls := run_embed_calls st @ [enriched_text item],
          run_printed := run_printed st @ fst (get_embedding (svc 0 (enriched_text item))),
          run_add_calls := run_add_calls st @ [(item_id item, item_text item, emb)],
          run_index := run_index st @ [(item_id item, item_text item, emb)]\<rparr>"
      let ?svc = "\<lambda>n. svc (Suc n)"
      have eq: "ingest_loop svc (item # rest) st = ingest_loop ?svc rest ?st"
        by (rule ingest_loop_step [of svc item, OF Inr False])
      from Cons.IH [of ?svc ?st] obtain embs where H:
        "length embs \<le> length rest
         \<and> run_index (ingest_loop ?svc rest ?st)
             = run_index ?st @ map (\<lambda>(r, e). (item_id r, item_text r, e)) (zip rest embs)
         \<and> (\<forall>j<length embs. snd (get_embedding (svc (Suc j) (enriched_text (rest ! j)))) = Inr (embs ! j))
         \<and> (\<forall>j<length embs. item_id (rest ! j) \<notin> set (collection_get_ids (run_index ?st)))
         \<and> distinct (map item_id (take (length embs) rest))
         \<and> (run_abort (ingest_loop ?svc rest ?st) = None \<longrightarrow>
              length embs = length rest
              \<and> run_add_calls (ingest_loop ?svc rest ?st)
                  = run_add_calls ?st @ map (\<lambda>(r, e). (item_id r, item_text r, e)) (zip rest embs))"
        ..
      from H have len: "length embs \<le> length rest"
        by (elim conjE)
      from H have idx: "run_index (ingest_loop ?svc rest ?st)
               = run_index ?st @ map (\<lambda>(r, e). (item_id r, item_text r, e)) (zip rest embs)"
        by (elim conjE)
      from H have emb: "\<forall>j<length embs. snd (get_embedding (svc (Suc j) (enriched_text (rest ! j)))) = Inr (embs ! j)"
        by (elim conjE)
      from H have fresh: "\<forall>j<length embs. item_id (rest ! j) \<notin> set (collection_get_ids (run_index ?st))"
        by (elim conjE)
      from H have dist: "distinct (map item_id (take (length embs) rest))"
        by (elim conjE)
      from H have fin: "run_abort (ingest_loop ?svc rest ?st) = None \<longrightarrow>
                length embs = length rest
                \<and> run_add_calls (ingest_loop ?svc rest ?st)
                    = run_add_calls ?st @ map (\<lambda>(r, e). (item_id r, item_text r, e)) (zip rest embs)"
        by (elim conjE)
      have fresh': "\<forall>j<length embs. item_id (rest ! j) \<noteq> item_id item
                      \<and> item_id (rest ! j) \<notin> set (collection_get_ids (run_index st))"
        using fresh by (simp add: collection_get_ids_def)
      have notin: "item_id item \<notin> item_id ` set (take (length embs) rest)"
      proof
        assume "item_id item \<in> item_id ` set (take (length embs) rest)"
        then obtain r where r: "r \<in> set (take (length embs) rest)" and e: "item_id r = item_id item"
          by auto
        from r obtain j where "j < length (take (length embs) rest)" and "take (length embs) rest ! j = r"
          by (auto simp: in_set_conv_nth)
        with len have "j < length embs" and "rest ! j = r" by simp_all
        with fresh' e show False by auto
      qed
      show ?thesis
      proof (rule exI [of _ "emb # embs"], intro conjI)
        show "length (emb # embs) \<le> length (item # rest)" using len by simp
        show "run_index (ingest_loop svc (item # rest) st)
                = run_index st @ map (\<lambda>(r, e). (item_id r, item_text r, e)) (zip (item # rest) (emb # embs))"
          unfolding eq idx by simp
        show "\<forall>j<length (emb # embs). snd (get_embedding (svc j (enriched_text ((item # rest) ! j)))) = Inr ((emb # embs) ! j)"
          using emb Inr by (simp add: All_less_Suc2)
        show "\<forall>j<length (emb # embs). item_id ((item # rest) ! j) \<notin> set (collection_get_ids (run_index st))"
          using fresh' False by (simp add: All_less_Suc2)
        show "distinct (map item_id (take (length (emb # embs)) (item # rest)))"
          using dist notin by simp
        show "run_abort (ingest_loop svc (item # rest) st) = None \<longrightarrow>
                length (emb # embs) = length (item # rest)
                \<and> run_add_calls (ingest_loop svc (item # rest) st)
                    = run_add_calls st @ map (\<lambda>(r, e). (item_id r, item_text r, e)) (zip (item # rest) (emb # embs))"
          unfolding eq using fin by simp
      qed
    qed
  qed
qed

lemma ingestion_shape:
  "\<exists>embs. length embs \<le> length (new_items food_data c)
     \<and> run_index (ingestion svc food_data c)
         = c @ map (\<lambda>(r, e). (item_id r, item_text r, e)) (zip (new_items food_data c) embs)
     \<and> (\<forall>j<length embs.
           snd (get_embedding (svc j (enriched_text (new_items food_data c ! j)))) = Inr (embs ! j))
     \<and> distinct (map item_id (take (length embs) (new_items food_data c)))
     \<and> (run_abort (ingestion svc food_data c) = None \<longrightarrow>
          length embs = length (new_items food_data c)
          \<and> run_add_calls (ingestion svc food_data c)
              = map (\<lambda>(r, e). (item_id r, item_text r, e)) (zip (new_items food_data c) embs))"
proof (cases "new_items food_data c = []")
  case True
  show ?thesis
    by (rule exI [of _ "[]"]) (simp add: ingestion_def True)
next
  case False
  let ?new = "new_items food_data c"
  let ?st = "\<lparr>run_index = c, run_printed = [AddingNewDocuments (length ?new)],
               run_embed_calls = [], run_add_calls = [], run_abort = None\<rparr>"
  have eq: "ingestion svc food_data c = ingest_loop svc ?new ?st"
    using False by (simp add: ingestion_def Let_def)
  from ingest_loop_shape [of ?new svc ?st] obtain embs where H:
    "length embs \<le> length ?new
     \<and> run_index (ingest_loop svc ?new ?st)
         = run_index ?st @ map (\<lambda>(r, e). (item_id r, item_text r, e)) (zip ?new embs)
     \<and> (\<forall>j<length embs. snd (get_embedding (svc j (enriched_text (?new ! j)))) = Inr (embs ! j))
     \<and> (\<forall>j<length embs. item_id (?new ! j) \<notin> set (collection_get_ids (run_index ?st)))
     \<and> distinct (map item_id (take (length embs) ?new))
     \<and> (run_abort (ingest_loop svc ?new ?st) = None \<longrightarrow>
          length embs = length ?new
          \<and> run_add_calls (ingest_loop svc ?new ?st)
              = run_add_calls ?st @ map (\<lambda>(r, e). (item_id r, item_text r, e)) (zip ?new embs))"
    ..
  show ?thesis
  proof (rule exI [of _ embs], intro conjI)
    show "length embs \<le> length ?new" using H by (elim conjE)
    show "run_index (ingestion svc food_data c)
            = c @ map (\<lambda>(r, e). (item_id r, item_text r, e)) (zip ?new embs)"
      unfolding eq using H by (elim conjE) simp
    show "\<forall>j<length embs. snd (get_embedding (svc j (enriched_text (?new ! j)))) = Inr (embs ! j)"
      using H by (elim conjE)
    show "distinct (map item_id (take (length embs) ?new))"
      using H by (elim conjE)
    show "run_abort (ingestion svc food_data c) = None \<longrightarrow>
          length embs = length ?new
          \<and> run_add_calls (ingestion svc food_data c)
              = map (\<lambda>(r, e). (item_id r, item_text r, e)) (zip ?new embs)"
      unfolding eq using H by (elim conjE) simp
  qed
qed

lemma ids_of_entries:
  "collection_get_ids (c @ map (\<lambda>(r, e). (item_id r, item_text r, e)) (zip items embs))
     = collection_get_ids c @ map item_id (take (length embs) items)"
proof -
  have "map fst (map (\<lambda>(r, e). (item_id r, item_text r, e)) (zip items embs))
          = map item_id (map fst (zip items embs))"
    by (simp add: case_prod_beta)
  also have "\<dots> = map item_id (take (length embs) items)"
    by (simp only: map_fst_zip_take) (simp add: min_def)
  finally show ?thesis by (simp add: collection_get_ids_def)
qed


lemma completed_ids:
  assumes "run_abort (ingestion svc food_data c) = None"
  shows "collection_get_ids (run_index (ingestion svc food_data c))
           = collection_get_ids c @ map item_id (new_items food_data c)"
proof -
  from ingestion_shape [of food_data c svc] obtain embs where H:
    "length embs \<le> length (new_items food_data c)
     \<and> run_index (ingestion svc food_data c)
         = c @ map (\<lambda>(r, e). (item_id r, item_text r, e)) (zip (new_items food_data c) embs)
     \<and> (\<forall>j<length embs.
           snd (get_embedding (svc j (enriched_text (new_items food_data c ! j)))) = Inr (embs ! j))
     \<and> distinct (map item_id (take (length embs) (new_items food_data c)))
     \<and> (run_abort (ingestion svc food_data c) = None \<longrightarrow>
          length embs = length (new_items food_data c)
          \<and> run_add_calls (ingestion svc food_data c)
              = map (\<lambda>(r, e). (item_id r, item_text r, e)) (zip (new_items food_data c) embs))"
    ..
  from H assms have len: "length embs = length (new_items food_data c)"
    by (elim conjE) (rule conjunct1, erule mp)
  from H have idx: "run_index (ingestion svc food_data c)
         = c @ map (\<lambda>(r, e). (item_id r, item_text r, e)) (zip (new_items food_data c) embs)"
    by (elim conjE)
  show ?thesis
    unfolding idx ids_of_entries len by simp
qed

lemma new_items_nil:
  "set (map item_id food_data) \<subseteq> set (collection_get_ids c) \<Longrightarrow> new_items food_data c = []"
  by (induction food_data) (simp_all add: new_items_def)

lemma ingestion_nothing_new:
  "new_items food_data c = [] \<Longrightarrow>
   ingestion svc food_data c
     = \<lparr>run_index = c, run_printed = [AllDocumentsPresent],
        run_embed_calls = [], run_add_calls = [], run_abort = None\<rparr>"
  by (simp add: ingestion_def)

lemmas ingestion_eval =
  ingestion_def new_items_def collection_get_ids_def collection_add_def get_embedding_def
  enriched_text_def region_clause_def type_clause_def Let_def

text \<open>
  C1. When a run of the ingestion step has reached its end, a second run on the same
  corpus and on the collection the first run left finds no new record, sends nothing to
  the embedding service, calls \<^verbatim>\<open>collection.add\<close> not once, leaves the collection as
  it is, prints that all documents are present and ends normally, whatever the
  embedding service would do.
\<close>

theorem ingestion_idempotent:
  assumes "run_abort (ingestion svc food_data c) = None"
  shows "new_items food_data (run_index (ingestion svc food_data c)) = []
         \<and> ingestion svc' food_data (run_index (ingestion svc food_data c))
             = \<lparr>run_index = run_index (ingestion svc food_data c),
                run_printed = [AllDocumentsPresent],
                run_embed_calls = [], run_add_calls = [], run_abort = None\<rparr>"
proof -
  have sub: "set (map item_id food_data)
               \<subseteq> set (collection_get_ids (run_index (ingestion svc food_data c)))"
  proof
    fix i assume "i \<in> set (map item_id food_data)"
    then obtain r where r: "r \<in> set food_data" and i: "i = item_id r" by auto
    show "i \<in> set (collection_get_ids (run_index (ingestion svc food_data c)))"
    proof (cases "i \<in> set (collection_get_ids c)")
      case True
      then show ?thesis unfolding completed_ids [OF assms] by simp
    next
      case False
      with r i have "r \<in> set (new_items food_data c)" by (simp add: new_items_def)
      with i show ?thesis unfolding completed_ids [OF assms] by simp
    qed
  qed
  have nil: "new_items food_data (run_index (ingestion svc food_data c)) = []"
    by (rule new_items_nil [OF sub])
  show ?thesis
    using nil ingestion_nothing_new [OF nil, of svc'] by (rule conjI)
qed

theorem ingestion_idempotent_witness:
  "run_abort
     (ingestion (\<lambda>n t. Response 200 (Some [(''embedding'', [length t])]))
        [\<lparr>item_id = ''1'', item_text = ''Adobo'', item_region = Some ''PH'', item_type = None\<rparr>,
         \<lparr>item_id = ''2'', item_text = ''Sushi'', item_region = None, item_type = None\<rparr>]
        [(''2'', ''Sushi'', [5])]) = None
   \<and> run_add_calls
       (ingestion (\<lambda>n t. ReadTimeout)
          [\<lparr>item_id = ''1'', item_text = ''Adobo'', item_region = Some ''PH'', item_type = None\<rparr>,
           \<lparr>item_id = ''2'', item_text = ''Sushi'', item_region = None, item_type = None\<rparr>]
          (run_index
             (ingestion (\<lambda>n t. Response 200 (Some [(''embedding'', [length t])]))
                [\<lparr>item_id = ''1'', item_text = ''Adobo'', item_region = Some ''PH'', item_type = None\<rparr>,
                 \<lparr>item_id = ''2'', item_text = ''Sushi'', item_region = None, item_type = None\<rparr>]
                [(''2'', ''Sushi'', [5])]))) = []"
proof -
  let ?svc = "\<lambda>(n::nat) (t::string). Response 200 (Some [(''embedding'', [length t])])"
  let ?corpus = "[\<lparr>item_id = ''1'', item_text = ''Adobo'', item_region = Some ''PH'', item_type = None\<rparr>,
         \<lparr>item_id = ''2'', item_text = ''Sushi'', item_region = None, item_type = None\<rparr>]"
  let ?c = "[(''2'', ''Sushi'', [5::nat])]"
  have h: "run_abort (ingestion ?svc ?corpus ?c) = None"
    by (simp add: ingestion_eval)
  from ingestion_idempotent [OF h, of "\<lambda>n t. ReadTimeout", THEN conjunct2]
  have "run_add_calls (ingestion (\<lambda>n t. ReadTimeout) ?corpus (run_index (ingestion ?svc ?corpus ?c))) = []"
    by (simp only: run.simps)
  with h show ?thesis by (rule conjI)
qed

lemma new_items_append:
  "new_items food_data (c @ es)
     = filter (\<lambda>r. item_id r \<notin> set (collection_get_ids es)) (new_items food_data c)"
  by (induction food_data) (simp_all add: new_items_def collection_get_ids_def Let_def)

lemma keys_of_entries:
  "map (\<lambda>(i, d, e). (i, d)) (map (\<lambda>(r, e). (item_id r, item_text r, e)) (zip items embs))
     = map (\<lambda>r. (item_id r, item_text r)) (take (length embs) items)"
proof -
  have "map (\<lambda>(i, d, e). (i, d)) (map (\<lambda>(r, e). (item_id r, item_text r, e)) (zip items embs))
          = map (\<lambda>r. (item_id r, item_text r)) (map fst (zip items embs))"
    by (simp add: case_prod_beta)
  also have "\<dots> = map (\<lambda>r. (item_id r, item_text r)) (take (length embs) items)"
    by (simp only: map_fst_zip_take) (simp add: min_def)
  finally show ?thesis .
qed

lemma filter_out_prefix:
  "distinct (map f (xs @ ys)) \<Longrightarrow> filter (\<lambda>r. f r \<notin> f ` set xs) (xs @ ys) = ys"
proof -
  assume d: "distinct (map f (xs @ ys))"
  have 1: "filter (\<lambda>r. f r \<notin> f ` set xs) xs = []"
    by (simp add: filter_empty_conv)
  have 2: "filter (\<lambda>r. f r \<notin> f ` set xs) ys = ys"
    using d by (auto simp: filter_id_conv)
  show ?thesis using 1 2 by simp
qed

lemma new_items_distinct:
  "distinct (map item_id food_data) \<Longrightarrow> distinct (map item_id (new_items food_data c))"
  by (simp add: new_items_def Let_def distinct_map_filter)


lemma ingestion_shapeE:
  obtains embs where
    "length embs \<le> length (new_items food_data c)"
    "run_index (ingestion svc food_data c)
       = c @ map (\<lambda>(r, e). (item_id r, item_text r, e)) (zip (new_items food_data c) embs)"
    "\<forall>j<length embs.
       snd (get_embedding (svc j (enriched_text (new_items food_data c ! j)))) = Inr (embs ! j)"
    "distinct (map item_id (take (length embs) (new_items food_data c)))"
    "run_abort (ingestion svc food_data c) = None \<Longrightarrow>
       length embs = length (new_items food_data c)"
    "run_abort (ingestion svc food_data c) = None \<Longrightarrow>
       run_add_calls (ingestion svc food_data c)
         = map (\<lambda>(r, e). (item_id r, item_text r, e)) (zip (new_items food_data c) embs)"
proof -
  from ingestion_shape [of food_data c svc] obtain embs where H:
    "length embs \<le> length (new_items food_data c)
     \<and> run_index (ingestion svc food_data c)
         = c @ map (\<lambda>(r, e). (item_id r, item_text r, e)) (zip (new_items food_data c) embs)
     \<and> (\<forall>j<length embs.
           snd (get_embedding (svc j (enriched_text (new_items food_data c ! j)))) = Inr (embs ! j))
     \<and> distinct (map item_id (take (length embs) (new_items food_data c)))
     \<and> (run_abort (ingestion svc food_data c) = None \<longrightarrow>
          length embs = length (new_items food_data c)
          \<and> run_add_calls (ingestion svc food_data c)
              = map (\<lambda>(r, e). (item_id r, item_text r, e)) (zip (new_items food_data c) embs))"
    ..
  show thesis
  proof (rule that [of embs])
    show "length embs \<le> length (new_items food_data c)"
      using H by (elim conjE)
    show "run_index (ingestion svc food_data c)
       = c @ map (\<lambda>(r, e). (item_id r, item_text r, e)) (zip (new_items food_data c) embs)"
      using H by (elim conjE)
    show "\<forall>j<length embs.
       snd (get_embedding (svc j (enriched_text (new_items food_data c ! j)))) = Inr (embs ! j)"
      using H by (elim conjE)
    show "distinct (map item_id (take (length embs) (new_items food_data c)))"
      using H by (elim conjE)
    show "length embs = length (new_items food_data c)"
      if "run_abort (ingestion svc food_data c) = None"
      using H that by (elim conjE) (rule conjunct1, erule mp)
    show "run_add_calls (ingestion svc food_data c)
         = map (\<lambda>(r, e). (item_id r, item_text r, e)) (zip (new_items food_data c) embs)"
      if "run_abort (ingestion svc food_data c) = None"
      using H that by (elim conjE) (rule conjunct2, erule mp)
  qed
qed

text \<open>
  C2. Let a first run of the ingestion step end anywhere, for instance in the exit that
  a failure of the embedding client causes, after it has inserted the first \<open>k\<close> of the
  new records. The collection it leaves is the one it found followed by these \<open>k\<close>
  records, each under its id with its text: nothing is rolled back. A later run that
  reaches its end, whatever the embedding service answers, calls \<^verbatim>\<open>collection.add\<close>
  exactly for the new records whose id the first run did not insert, in the order of
  the corpus, every call is stored, and no call has an id that the collection held
  before this run. When the ids of the corpus are pairwise distinct these are the new
  records after the first \<open>k\<close>.
\<close>

theorem ingestion_converges:
  fixes svc1 svc2 :: "nat \<Rightarrow> string \<Rightarrow> 'e reply"
    and food_data :: "item list" and c :: "'e collection"
  defines "r1 \<equiv> ingestion svc1 food_data c"
  defines "r2 \<equiv> ingestion svc2 food_data (run_index r1)"
  defines "new \<equiv> new_items food_data c"
  defines "k \<equiv> length (run_index r1) - length c"
  assumes completed: "run_abort r2 = None"
  shows "k \<le> length new
       \<and> take (length c) (run_index r1) = c
       \<and> map (\<lambda>(i, d, e). (i, d)) (drop (length c) (run_index r1))
           = map (\<lambda>r. (item_id r, item_text r)) (take k new)
       \<and> run_index r2 = run_index r1 @ run_add_calls r2
       \<and> map (\<lambda>(i, d, e). (i, d)) (run_add_calls r2)
           = map (\<lambda>r. (item_id r, item_text r))
               (filter (\<lambda>r. item_id r \<notin> item_id ` set (take k new)) new)
       \<and> (\<forall>e \<in> set (run_add_calls r2). fst e \<notin> set (collection_get_ids (run_index r1)))
       \<and> (distinct (map item_id food_data) \<longrightarrow>
            map (\<lambda>(i, d, e). (i, d)) (run_add_calls r2)
              = map (\<lambda>r. (item_id r, item_text r)) (drop k new))"
proof -
  obtain embs1 where
    len1: "length embs1 \<le> length new" and
    idx1: "run_index r1 = c @ map (\<lambda>(r, e). (item_id r, item_text r, e)) (zip new embs1)"
    unfolding r1_def new_def by (rule ingestion_shapeE [of food_data c svc1])
  let ?new2 = "new_items food_data (run_index r1)"
  obtain embs2 where
    idx2: "run_index r2
             = run_index r1 @ map (\<lambda>(r, e). (item_id r, item_text r, e)) (zip ?new2 embs2)" and
    len2: "length embs2 = length ?new2" and
    add2: "run_add_calls r2 = map (\<lambda>(r, e). (item_id r, item_text r, e)) (zip ?new2 embs2)"
    using completed unfolding r2_def
    by (rule_tac ingestion_shapeE [of food_data "run_index r1" svc2]) simp
  have k: "k = length embs1"
    unfolding k_def idx1 using len1 by simp
  have ids1: "collection_get_ids (map (\<lambda>(r, e). (item_id r, item_text r, e)) (zip new embs1))
                = map item_id (take k new)"
    using ids_of_entries [of "[]" new embs1] by (simp add: k collection_get_ids_def)
  have new2: "?new2 = filter (\<lambda>r. item_id r \<notin> item_id ` set (take k new)) new"
    unfolding idx1 new_items_append ids1 by (simp add: new_def)
  have keys2: "map (\<lambda>(i, d, e). (i, d)) (run_add_calls r2)
                 = map (\<lambda>r. (item_id r, item_text r)) ?new2"
    unfolding add2 keys_of_entries len2 by simp
  have c1: "k \<le> length new" using len1 k by simp
  have c2: "take (length c) (run_index r1) = c" unfolding idx1 by simp
  have c3: "map (\<lambda>(i, d, e). (i, d)) (drop (length c) (run_index r1))
           = map (\<lambda>r. (item_id r, item_text r)) (take k new)"
  proof -
    have "drop (length c) (run_index r1)
            = map (\<lambda>(r, e). (item_id r, item_text r, e)) (zip new embs1)"
      unfolding idx1 by simp
    then show ?thesis unfolding k by (simp only: keys_of_entries)
  qed
  have c4: "run_index r2 = run_index r1 @ run_add_calls r2"
    unfolding idx2 add2 ..
  have c5: "map (\<lambda>(i, d, e). (i, d)) (run_add_calls r2)
           = map (\<lambda>r. (item_id r, item_text r))
               (filter (\<lambda>r. item_id r \<notin> item_id ` set (take k new)) new)"
    using keys2 new2 by simp
  have c6: "\<forall>e \<in> set (run_add_calls r2). fst e \<notin> set (collection_get_ids (run_index r1))"
  proof
    fix e assume "e \<in> set (run_add_calls r2)"
    then have "fst e \<in> set (map fst (run_add_calls r2))" by simp
    also have "map fst (run_add_calls r2) = map item_id ?new2"
      using ids_of_entries [of "[]" ?new2 embs2] len2
      by (simp add: add2 collection_get_ids_def)
    finally obtain r where "r \<in> set ?new2" and "fst e = item_id r" by auto
    then show "fst e \<notin> set (collection_get_ids (run_index r1))"
      by (simp add: new_items_def)
  qed
  have c7: "distinct (map item_id food_data) \<longrightarrow>
            map (\<lambda>(i, d, e). (i, d)) (run_add_calls r2)
              = map (\<lambda>r. (item_id r, item_text r)) (drop k new)"
  proof
    assume "distinct (map item_id food_data)"
    then have "distinct (map item_id (take k new @ drop k new))"
      unfolding new_def by (simp add: new_items_distinct)
    then have "filter (\<lambda>r. item_id r \<notin> item_id ` set (take k new)) (take k new @ drop k new)
                 = drop k new"
      by (rule filter_out_prefix)
    then show "map (\<lambda>(i, d, e). (i, d)) (run_add_calls r2)
              = map (\<lambda>r. (item_id r, item_text r)) (drop k new)"
      using c5 by simp
  qed
  from c1 c2 c3 c4 c5 c6 c7 show ?thesis by (intro conjI)
qed


theorem ingestion_converges_witness:
  "run_abort
     (ingestion (\<lambda>n t. if n = 0 then Response 200 (Some [(''embedding'', [length t])]) else ReadTimeout)
        [\<lparr>item_id = ''1'', item_text = ''A'', item_region = None, item_type = None\<rparr>,
         \<lparr>item_id = ''2'', item_text = ''B'', item_region = None, item_type = None\<rparr>,
         \<lparr>item_id = ''3'', item_text = ''C'', item_region = None, item_type = None\<rparr>]
        []) = Some (SystemExit 1)
   \<and> run_index
       (ingestion (\<lambda>n t. if n = 0 then Response 200 (Some [(''embedding'', [length t])]) else ReadTimeout)
          [\<lparr>item_id = ''1'', item_text = ''A'', item_region = None, item_type = None\<rparr>,
           \<lparr>item_id = ''2'', item_text = ''B'', item_region = None, item_type = None\<rparr>,
           \<lparr>item_id = ''3'', item_text = ''C'', item_region = None, item_type = None\<rparr>]
          []) = [(''1'', ''A'', [1])]
   \<and> run_abort
       (ingestion (\<lambda>n t. Response 200 (Some [(''embedding'', [length t])]))
          [\<lparr>item_id = ''1'', item_text = ''A'', item_region = None, item_type = None\<rparr>,
           \<lparr>item_id = ''2'', item_text = ''B'', item_region = None, item_type = None\<rparr>,
           \<lparr>item_id = ''3'', item_text = ''C'', item_region = None, item_type = None\<rparr>]
          [(''1'', ''A'', [1])]) = None
   \<and> map (\<lambda>(i, d, e). (i, d))
       (run_add_calls
          (ingestion (\<lambda>n t. Response 200 (Some [(''embedding'', [length t])]))
             [\<lparr>item_id = ''1'', item_text = ''A'', item_region = None, item_type = None\<rparr>,
              \<lparr>item_id = ''2'', item_text = ''B'', item_region = None, item_type = None\<rparr>,
              \<lparr>item_id = ''3'', item_text = ''C'', item_region = None, item_type = None\<rparr>]
             [(''1'', ''A'', [1])]))
       = [(''2'', ''B''), (''3'', ''C'')]"
proof -
  let ?svc1 = "\<lambda>(n::nat) (t::string).
                 if n = 0 then Response 200 (Some [(''embedding'', [length t])]) else ReadTimeout"
  let ?svc2 = "\<lambda>(n::nat) (t::string). Response 200 (Some [(''embedding'', [length t])])"
  let ?corpus = "[\<lparr>item_id = ''1'', item_text = ''A'', item_region = None, item_type = None\<rparr>,
         \<lparr>item_id = ''2'', item_text = ''B'', item_region = None, item_type = None\<rparr>,
         \<lparr>item_id = ''3'', item_text = ''C'', item_region = None, item_type = None\<rparr>]"
  let ?c = "[] :: nat list collection"
  have new: "new_items ?corpus ?c = ?corpus"
    by (simp add: new_items_def collection_get_ids_def)
  have r1: "ingestion ?svc1 ?corpus ?c
              = \<lparr>run_index = [(''1'', ''A'', [1])], run_printed = [AddingNewDocuments 3, RequestTimedOut],
                 run_embed_calls = [''A'', ''B''], run_add_calls = [(''1'', ''A'', [1])],
                 run_abort = Some (SystemExit 1)\<rparr>"
    by (simp add: ingestion_eval)
  have a1: "run_abort (ingestion ?svc1 ?corpus ?c) = Some (SystemExit 1)"
    unfolding r1 by simp
  have i1: "run_index (ingestion ?svc1 ?corpus ?c) = [(''1'', ''A'', [1])]"
    unfolding r1 by simp
  have h: "run_abort (ingestion ?svc2 ?corpus (run_index (ingestion ?svc1 ?corpus ?c))) = None"
    unfolding i1 by (simp add: ingestion_eval)
  have d: "distinct (map item_id ?corpus)"
    by simp
  have rest: "map (\<lambda>r. (item_id r, item_text r))
                (drop (length (run_index (ingestion ?svc1 ?corpus ?c)) - length ?c)
                   (new_items ?corpus ?c))
              = [(''2'', ''B''), (''3'', ''C'')]"
    unfolding i1 new by simp
  from ingestion_converges [OF h] have
    "distinct (map item_id ?corpus) \<longrightarrow>
       map (\<lambda>(i, d, e). (i, d))
         (run_add_calls (ingestion ?svc2 ?corpus (run_index (ingestion ?svc1 ?corpus ?c))))
       = map (\<lambda>r. (item_id r, item_text r))
           (drop (length (run_index (ingestion ?svc1 ?corpus ?c)) - length ?c)
              (new_items ?corpus ?c))"
    by (elim conjE)
  with d have "map (\<lambda>(i, d, e). (i, d))
         (run_add_calls (ingestion ?svc2 ?corpus (run_index (ingestion ?svc1 ?corpus ?c))))
       = [(''2'', ''B''), (''3'', ''C'')]"
    unfolding rest by (rule rev_mp)
  then have "map (\<lambda>(i, d, e). (i, d))
         (run_add_calls (ingestion ?svc2 ?corpus [(''1'', ''A'', [1])]))
       = [(''2'', ''B''), (''3'', ''C'')]"
    unfolding i1 .
  moreover from h have "run_abort (ingestion ?svc2 ?corpus [(''1'', ''A'', [1])]) = None"
    unfolding i1 .
  ultimately show ?thesis using a1 i1 by (intro conjI)
qed

lemma enriched_text_longer:
  "item_region x \<noteq> None \<or> item_type x \<noteq> None \<Longrightarrow>
   length (item_text x) < length (enriched_text x)"
  by (auto simp: enriched_text_def Let_def region_clause_def type_clause_def
           split: option.splits)

lemma enriched_text_differs:
  "item_region x \<noteq> None \<or> item_type x \<noteq> None \<Longrightarrow> enriched_text x \<noteq> item_text x"
proof
  assume "item_region x \<noteq> None \<or> item_type x \<noteq> None" and "enriched_text x = item_text x"
  with enriched_text_longer [of x] show False by simp
qed

lemma map_of_fresh_entry:
  assumes "j < length es" and "distinct (map fst es)" and "fst (es ! j) \<notin> fst ` set c"
  shows "map_of (c @ es) (fst (es ! j)) = Some (snd (es ! j))"
proof -
  from assms(1) have "(fst (es ! j), snd (es ! j)) \<in> set es" by simp
  with assms(2) have "map_of es (fst (es ! j)) = Some (snd (es ! j))"
    by (simp only: map_of_eq_Some_iff)
  moreover from assms(3) have "map_of c (fst (es ! j)) = None"
    by (simp add: map_of_eq_None_iff)
  ultimately show ?thesis by (simp add: map_add_def)
qed

text \<open>
  C3. Whatever a run of the ingestion step inserts is stored with the record's own text.
  The collection a run leaves is the one it found followed by one entry for each of the
  first \<open>k\<close> new records; the entry of a record holds the record's id, the record's
  \<^verbatim>\<open>text\<close> field itself, and the embedding that the service returned for the enriched
  text, and it is the entry found under the record's id. The enriched text differs from
  the text as soon as the record has a region or a type, so it is not what is stored.
\<close>

theorem enrichment_not_stored:
  fixes svc :: "nat \<Rightarrow> string \<Rightarrow> 'e reply"
    and food_data :: "item list" and c :: "'e collection"
  defines "r \<equiv> ingestion svc food_data c"
  defines "new \<equiv> new_items food_data c"
  defines "k \<equiv> length (run_index r) - length c"
  shows "k \<le> length new
       \<and> length (run_index r) = length c + k
       \<and> take (length c) (run_index r) = c
       \<and> (\<forall>j<k. \<exists>emb.
             snd (get_embedding (svc j (enriched_text (new ! j)))) = Inr emb
             \<and> run_index r ! (length c + j) = (item_id (new ! j), item_text (new ! j), emb)
             \<and> map_of (run_index r) (item_id (new ! j)) = Some (item_text (new ! j), emb))
       \<and> (\<forall>x. item_region x \<noteq> None \<or> item_type x \<noteq> None
              \<longrightarrow> enriched_text x \<noteq> item_text x)"
proof -
  let ?es = "\<lambda>embs. map (\<lambda>(r, e). (item_id r, item_text r, e)) (zip new embs)"
  obtain embs where
    len: "length embs \<le> length new" and
    idx: "run_index r = c @ ?es embs" and
    emb: "\<forall>j<length embs. snd (get_embedding (svc j (enriched_text (new ! j)))) = Inr (embs ! j)" and
    dist: "distinct (map item_id (take (length embs) new))"
    unfolding r_def new_def by (rule ingestion_shapeE [of food_data c svc])
  have k: "k = length embs"
    unfolding k_def idx using len by simp
  have les: "length (?es embs) = k" using len k by simp
  have nth: "?es embs ! j = (item_id (new ! j), item_text (new ! j), embs ! j)" if "j < k" for j
    using that len k by simp
  have ids: "map fst (?es embs) = map item_id (take k new)"
    using ids_of_entries [of "[]" new embs] by (simp add: k collection_get_ids_def)
  have fresh: "item_id (new ! j) \<notin> fst ` set c" if "j < k" for j
  proof -
    from that len k have "new ! j \<in> set new" by simp
    then show ?thesis by (simp add: new_def new_items_def collection_get_ids_def)
  qed
  have c4: "\<forall>j<k. \<exists>emb.
             snd (get_embedding (svc j (enriched_text (new ! j)))) = Inr emb
             \<and> run_index r ! (length c + j) = (item_id (new ! j), item_text (new ! j), emb)
             \<and> map_of (run_index r) (item_id (new ! j)) = Some (item_text (new ! j), emb)"
  proof (intro allI impI)
    fix j assume j: "j < k"
    have 1: "snd (get_embedding (svc j (enriched_text (new ! j)))) = Inr (embs ! j)"
      using emb j k by simp
    have 2: "run_index r ! (length c + j) = (item_id (new ! j), item_text (new ! j), embs ! j)"
      unfolding idx using nth [OF j] by (simp add: nth_append)
    have "map_of (c @ ?es embs) (fst (?es embs ! j)) = Some (snd (?es embs ! j))"
    proof (rule map_of_fresh_entry)
      show "j < length (?es embs)" using j les by simp
      show "distinct (map fst (?es embs))" unfolding ids using dist k by simp
      show "fst (?es embs ! j) \<notin> fst ` set c" unfolding nth [OF j] using fresh [OF j] by simp
    qed
    then have 3: "map_of (run_index r) (item_id (new ! j)) = Some (item_text (new ! j), embs ! j)"
      unfolding idx nth [OF j] by simp
    from 1 2 3 show "\<exists>emb.
             snd (get_embedding (svc j (enriched_text (new ! j)))) = Inr emb
             \<and> run_index r ! (length c + j) = (item_id (new ! j), item_text (new ! j), emb)
             \<and> map_of (run_index r) (item_id (new ! j)) = Some (item_text (new ! j), emb)"
      by (intro exI [of _ "embs ! j"] conjI)
  qed
  have c1: "k \<le> length new" using len k by simp
  have c2: "length (run_index r) = length c + k" unfolding idx using les by simp
  have c3: "take (length c) (run_index r) = c" unfolding idx by simp
  have c5: "\<forall>x. item_region x \<noteq> None \<or> item_type x \<noteq> None
              \<longrightarrow> enriched_text x \<noteq> item_text x"
    using enriched_text_differs by blast
  from c1 c2 c3 c4 c5 show ?thesis by (intro conjI)
qed


theorem enrichment_not_stored_witness:
  "map_of
     (run_index
        (ingestion (\<lambda>n t. Response 200 (Some [(''embedding'', t)]))
           [\<lparr>item_id = ''1'', item_text = ''Adobo'', item_region = Some ''PH'', item_type = None\<rparr>]
           []))
     ''1''
   = Some (''Adobo'', ''Adobo This food is popular in PH.'')"
proof -
  let ?svc = "\<lambda>(n::nat) (t::string). Response 200 (Some [(''embedding'', t)])"
  let ?x = "\<lparr>item_id = ''1'', item_text = ''Adobo'', item_region = Some ''PH'', item_type = None\<rparr>"
  let ?c = "[] :: string collection"
  let ?r = "ingestion ?svc [?x] ?c"
  have new: "new_items [?x] ?c = [?x]"
    by (simp add: new_items_def collection_get_ids_def)
  have len: "length (run_index ?r) - length ?c = 1"
    by (simp add: ingestion_eval)
  from enrichment_not_stored [of ?svc "[?x]" ?c]
  have "\<forall>j<1. \<exists>emb.
          snd (get_embedding (?svc j (enriched_text ([?x] ! j)))) = Inr emb
          \<and> run_index ?r ! (length ?c + j) = (item_id ([?x] ! j), item_text ([?x] ! j), emb)
          \<and> map_of (run_index ?r) (item_id ([?x] ! j)) = Some (item_text ([?x] ! j), emb)"
    unfolding new len by (elim conjE)
  then have "\<exists>emb.
          snd (get_embedding (?svc 0 (enriched_text ([?x] ! 0)))) = Inr emb
          \<and> run_index ?r ! (length ?c + 0) = (item_id ([?x] ! 0), item_text ([?x] ! 0), emb)
          \<and> map_of (run_index ?r) (item_id ([?x] ! 0)) = Some (item_text ([?x] ! 0), emb)"
    by (elim allE [of _ 0]) (erule mp, rule zero_less_one)
  then obtain emb where
    e: "snd (get_embedding (?svc 0 (enriched_text ([?x] ! 0)))) = Inr emb" and
    m: "map_of (run_index ?r) (item_id ([?x] ! 0)) = Some (item_text ([?x] ! 0), emb)"
    by (elim exE conjE)
  from e have "emb = ''Adobo This food is popular in PH.''"
    by (simp add: get_embedding_def enriched_text_def region_clause_def)
  with m show ?thesis by simp
qed

lemma new_items_split:
  "new_items (xs @ ys) c = new_items xs c @ new_items ys c"
  by (simp add: new_items_def Let_def)

lemma new_items_Cons_fresh:
  "item_id x \<notin> set (collection_get_ids c) \<Longrightarrow> new_items (x # ys) c = x # new_items ys c"
  by (simp add: new_items_def Let_def)

lemma count_list_distinct:
  "distinct xs \<Longrightarrow> x \<in> set xs \<Longrightarrow> count_list xs x = 1"
  by (induction xs) auto

lemma ingest_loop_duplicate:
  assumes "\<forall>n t. \<exists>e. snd (get_embedding (svc n t)) = Inr e"
    and "distinct (map item_id xs)"
    and "item_id ` set xs \<inter> set (collection_get_ids (run_index st)) = {}"
    and "item_id d \<in> item_id ` set xs \<union> set (collection_get_ids (run_index st))"
  shows "run_abort (ingest_loop svc (xs @ d # post) st) = Some (Uncaught DuplicateIDError)
       \<and> map fst (run_add_calls (ingest_loop svc (xs @ d # post) st))
           = map fst (run_add_calls st) @ map item_id xs @ [item_id d]"
  using assms
proof (induction xs arbitrary: svc st)
  case Nil
  from Nil.prems(1) obtain e where e: "snd (get_embedding (svc 0 (enriched_text d))) = Inr e"
    by blast
  from Nil.prems(4) have dup: "item_id d \<in> set (collection_get_ids (run_index st))"
    by simp
  show ?case
    by (simp del: ingest_loop.simps add: ingest_loop_dup [of svc d, OF e dup])
next
  case (Cons x xs)
  from Cons.prems(1) obtain e where e: "snd (get_embedding (svc 0 (enriched_text x))) = Inr e"
    by blast
  from Cons.prems(3) have fresh: "item_id x \<notin> set (collection_get_ids (run_index st))"
    by auto
  let ?st = "st\<lparr>run_embed_calls := run_embed_calls st @ [enriched_text x],
          run_printed := run_printed st @ fst (get_embedding (svc 0 (enriched_text x))),
          run_add_calls := run_add_calls st @ [(item_id x, item_text x, e)],
          run_index := run_index st @ [(item_id x, item_text x, e)]\<rparr>"
  let ?svc = "\<lambda>n. svc (Suc n)"
  have eq: "ingest_loop svc ((x # xs) @ d # post) st = ingest_loop ?svc (xs @ d # post) ?st"
    using ingest_loop_step [of svc x, OF e fresh] by simp
  have 1: "\<forall>n t. \<exists>e. snd (get_embedding (?svc n t)) = Inr e"
    using Cons.prems(1) by blast
  have 2: "distinct (map item_id xs)"
    using Cons.prems(2) by simp
  have 3: "item_id ` set xs \<inter> set (collection_get_ids (run_index ?st)) = {}"
    using Cons.prems(2,3) by (auto simp: collection_get_ids_def)
  have 4: "item_id d \<in> item_id ` set xs \<union> set (collection_get_ids (run_index ?st))"
    using Cons.prems(4) by (auto simp: collection_get_ids_def)
  from Cons.IH [of ?svc ?st, OF 1 2 3 4] show ?case
    unfolding eq by simp
qed


lemma new_items_keeps_absent_id:
  "i \<notin> set (collection_get_ids c) \<Longrightarrow>
   filter (\<lambda>r. item_id r = i) (new_items food_data c) = filter (\<lambda>r. item_id r = i) food_data"
  by (induction food_data) (auto simp: new_items_def Let_def)

lemma new_items_ids_fresh:
  "item_id ` set (new_items food_data c) \<inter> set (collection_get_ids c) = {}"
  by (auto simp: new_items_def Let_def)

text \<open>
  C10. The filter of line 54 compares with the ids of the collection only. Let the
  corpus hold a record \<open>b\<close> whose id is not in the collection and is the id of a record
  before it, these two being the first records that share an id, and let the embedding
  service answer every request. Then every record with this id passes the filter, at
  least two of them; \<^verbatim>\<open>collection.add\<close> is called twice with this id in the one run,
  and the run ends in the second call, in the error of the store for an id that it
  already holds.
\<close>

theorem duplicate_ids_reach_the_store:
  assumes ok: "\<forall>n t. \<exists>e. snd (get_embedding (svc n t)) = Inr e"
    and corpus: "food_data = pre @ b # post"
    and absent: "item_id b \<notin> set (collection_get_ids c)"
    and twin: "item_id b \<in> item_id ` set pre"
    and first: "distinct (map item_id (new_items pre c))"
  shows "filter (\<lambda>r. item_id r = item_id b) (new_items food_data c)
           = filter (\<lambda>r. item_id r = item_id b) food_data
       \<and> 2 \<le> length (filter (\<lambda>r. item_id r = item_id b) (new_items food_data c))
       \<and> count_list (map fst (run_add_calls (ingestion svc food_data c))) (item_id b) = 2
       \<and> run_abort (ingestion svc food_data c) = Some (Uncaught DuplicateIDError)"
proof -
  let ?xs = "new_items pre c"
  let ?post = "new_items post c"
  have new: "new_items food_data c = ?xs @ b # ?post"
    unfolding corpus new_items_split new_items_Cons_fresh [OF absent] ..
  from twin obtain a where a: "a \<in> set pre" and ab: "item_id a = item_id b"
    by auto
  from a ab absent have a_new: "a \<in> set ?xs"
    by (simp add: new_items_def Let_def)
  have c1: "filter (\<lambda>r. item_id r = item_id b) (new_items food_data c)
              = filter (\<lambda>r. item_id r = item_id b) food_data"
    by (rule new_items_keeps_absent_id [OF absent])
  have "filter (\<lambda>r. item_id r = item_id b) ?xs \<noteq> []"
    using a_new ab by (auto simp: filter_empty_conv)
  then have "1 \<le> length (filter (\<lambda>r. item_id r = item_id b) ?xs)"
    by (simp add: Suc_le_eq)
  then have c2: "2 \<le> length (filter (\<lambda>r. item_id r = item_id b) (new_items food_data c))"
    unfolding new by simp
  let ?st = "\<lparr>run_index = c, run_printed = [AddingNewDocuments (length (new_items food_data c))],
               run_embed_calls = [], run_add_calls = [], run_abort = None\<rparr>"
  have eq: "ingestion svc food_data c = ingest_loop svc (?xs @ b # ?post) ?st"
    using new by (simp add: ingestion_def Let_def)
  have fresh: "item_id ` set ?xs \<inter> set (collection_get_ids (run_index ?st)) = {}"
    using new_items_ids_fresh [of pre c] by simp
  have dup: "item_id b \<in> item_id ` set ?xs \<union> set (collection_get_ids (run_index ?st))"
  proof -
    from a_new have "item_id a \<in> item_id ` set ?xs" by (rule imageI)
    then show ?thesis unfolding ab by (rule UnI1)
  qed
  have b_in: "item_id b \<in> set (map item_id ?xs)"
  proof -
    from a_new have "item_id a \<in> item_id ` set ?xs" by (rule imageI)
    then show ?thesis unfolding ab by simp
  qed
  note loop = ingest_loop_duplicate [of svc ?xs ?st b ?post, OF ok first fresh dup]
  have ended: "run_abort (ingest_loop svc (?xs @ b # ?post) ?st) = Some (Uncaught DuplicateIDError)"
    by (rule loop [THEN conjunct1])
  have calls: "map fst (run_add_calls (ingest_loop svc (?xs @ b # ?post) ?st))
                  = map fst (run_add_calls ?st) @ map item_id ?xs @ [item_id b]"
    by (rule loop [THEN conjunct2])
  have "count_list (map item_id ?xs) (item_id b) = 1"
    using first b_in by (rule count_list_distinct)
  then have c3: "count_list (map fst (run_add_calls (ingestion svc food_data c))) (item_id b) = 2"
    unfolding eq calls by simp
  have c4: "run_abort (ingestion svc food_data c) = Some (Uncaught DuplicateIDError)"
    unfolding eq by (rule ended)
  from c1 c2 c3 c4 show ?thesis by (intro conjI)
qed

theorem duplicate_ids_reach_the_store_witness:
  "count_list
     (map fst
        (run_add_calls
           (ingestion (\<lambda>n t. Response 200 (Some [(''embedding'', [length t])]))
              [\<lparr>item_id = ''7'', item_text = ''Adobo'', item_region = None, item_type = None\<rparr>,
               \<lparr>item_id = ''7'', item_text = ''Sushi'', item_region = None, item_type = None\<rparr>]
              [])))
     ''7'' = 2
   \<and> run_abort
       (ingestion (\<lambda>n t. Response 200 (Some [(''embedding'', [length t])]))
          [\<lparr>item_id = ''7'', item_text = ''Adobo'', item_region = None, item_type = None\<rparr>,
           \<lparr>item_id = ''7'', item_text = ''Sushi'', item_region = None, item_type = None\<rparr>]
          []) = Some (Uncaught DuplicateIDError)"
proof -
  let ?svc = "\<lambda>(n::nat) (t::string). Response 200 (Some [(''embedding'', [length t])])"
  let ?a = "\<lparr>item_id = ''7'', item_text = ''Adobo'', item_region = None, item_type = None\<rparr>"
  let ?b = "\<lparr>item_id = ''7'', item_text = ''Sushi'', item_region = None, item_type = None\<rparr>"
  let ?c = "[] :: nat list collection"
  have ok: "\<forall>n t. \<exists>e. snd (get_embedding (?svc n t)) = Inr e"
    by (simp add: get_embedding_def)
  have corpus: "[?a, ?b] = [?a] @ ?b # []"
    by simp
  have absent: "item_id ?b \<notin> set (collection_get_ids ?c)"
    by (simp add: collection_get_ids_def)
  have twin: "item_id ?b \<in> item_id ` set [?a]"
    by simp
  have first: "distinct (map item_id (new_items [?a] ?c))"
    by (simp add: new_items_def collection_get_ids_def)
  note inst = duplicate_ids_reach_the_store [of ?svc "[?a, ?b]" "[?a]" ?b "[]" ?c,
         OF ok corpus absent twin first]
  have 1: "count_list (map fst (run_add_calls (ingestion ?svc [?a, ?b] ?c))) (item_id ?b) = 2"
    by (rule inst [THEN conjunct2, THEN conjunct2, THEN conjunct1])
  have 2: "run_abort (ingestion ?svc [?a, ?b] ?c) = Some (Uncaught DuplicateIDError)"
    by (rule inst [THEN conjunct2, THEN conjunct2, THEN conjunct2])
  have idb: "item_id ?b = ''7''"
    by simp
  from 1 2 show ?thesis unfolding idb by (rule conjI)
qed

lemma strip_empty_iff: "strip s = [] \<longleftrightarrow> (\<forall>ch \<in> set s. is_space ch)"
proof -
  have "strip s = [] \<longleftrightarrow> (\<forall>x \<in> set (dropWhile is_space s). is_space x)"
    by (simp add: strip_def)
  also have "\<dots> \<longleftrightarrow> dropWhile is_space (dropWhile is_space s) = []"
    by (simp only: dropWhile_eq_Nil_conv)
  also have "\<dots> \<longleftrightarrow> dropWhile is_space s = []"
    by (simp only: dropWhile_idem)
  also have "\<dots> \<longleftrightarrow> (\<forall>ch \<in> set s. is_space ch)"
    by (simp only: dropWhile_eq_Nil_conv)
  finally show ?thesis .
qed

text \<open>
  C8. When the content of the entry field is empty or white space only, that is, when
  nothing is left of it after \<^verbatim>\<open>strip\<close>, \<^verbatim>\<open>ask_question\<close> shows the warning that asks
  for a question and returns: nothing is sent to the embedding service, the collection
  is not queried, nothing is sent to the generation service, no error box is shown and
  nothing fails.
\<close>

theorem empty_question_guard:
  assumes "\<forall>ch \<in> set entry. is_space ch"
  shows "strip entry = []
       \<and> ask_question emb_svc gen_svc dist c entry
           = \<lparr>ask_printed = [], ask_embed_calls = [], ask_query_calls = [],
              ask_generate_calls = [], ask_dialogs = [EnterQuestionWarning],
              ask_output = None, ask_abort = None\<rparr>"
proof -
  from assms have "strip entry = []" by (simp only: strip_empty_iff)
  then show ?thesis by (simp add: ask_question_def)
qed

theorem empty_question_guard_witness:
  "strip [CHR '' '', CHR 0x09, CHR 0x0A] = []
   \<and> ask_dialogs (ask_question (\<lambda>t. Response 200 (Some [(''embedding'', [1::nat])]))
                     (\<lambda>p. Response 200 (Some [(''response'', p)]))
                     (\<lambda>a b. 0::nat) [] [CHR '' '', CHR 0x09, CHR 0x0A])
       = [EnterQuestionWarning]
   \<and> ask_embed_calls (ask_question (\<lambda>t. Response 200 (Some [(''embedding'', [1::nat])]))
                     (\<lambda>p. Response 200 (Some [(''response'', p)]))
                     (\<lambda>a b. 0::nat) [] [CHR '' '', CHR 0x09, CHR 0x0A])
       = []"
proof -
  have h: "\<forall>ch \<in> set [CHR '' '', CHR 0x09, CHR 0x0A]. is_space ch"
    by (simp add: is_space_def)
  note inst = empty_question_guard
                [OF h, of "\<lambda>t. Response 200 (Some [(''embedding'', [1::nat])])"
                   "\<lambda>p. Response 200 (Some [(''response'', p)])" "\<lambda>a b. 0::nat" "[]"]
  have 0: "strip [CHR '' '', CHR 0x09, CHR 0x0A] = []"
    by (rule inst [THEN conjunct1])
  have 1: "ask_dialogs (ask_question (\<lambda>t. Response 200 (Some [(''embedding'', [1::nat])]))
                     (\<lambda>p. Response 200 (Some [(''response'', p)]))
                     (\<lambda>a b. 0::nat) [] [CHR '' '', CHR 0x09, CHR 0x0A])
       = [EnterQuestionWarning]"
    unfolding inst [THEN conjunct2] by simp
  have 2: "ask_embed_calls (ask_question (\<lambda>t. Response 200 (Some [(''embedding'', [1::nat])]))
                     (\<lambda>p. Response 200 (Some [(''response'', p)]))
                     (\<lambda>a b. 0::nat) [] [CHR '' '', CHR 0x09, CHR 0x0A])
       = []"
    unfolding inst [THEN conjunct2] by simp
  from 0 1 2 show ?thesis by (intro conjI)
qed

section \<open>Properties of the answer pipeline\<close>













section \<open>Properties of the query\<close>

text \<open>
  C7. A query for \<open>k\<close> results on a collection of \<open>n\<close> entries returns \<open>min n k\<close>
  entries, all of them when \<open>n < k\<close>; there is no outcome but a list. The entries
  returned are entries of the collection, ranked by ascending distance from the query,
  and no entry left out is nearer than an entry returned.
\<close>

theorem query_bounds:
  fixes dist :: "'e \<Rightarrow> 'e \<Rightarrow> 'd::linorder" and c :: "'e collection"
    and q :: 'e and k :: nat
  defines "result \<equiv> collection_query dist c q k"
  defines "d \<equiv> \<lambda>(i :: string, document :: string, e). dist q e"
  shows "length result = min (length c) k
       \<and> (length c < k \<longrightarrow> mset result = mset c)
       \<and> sorted (map d result)
       \<and> (\<exists>rest. mset (result @ rest) = mset c
                 \<and> (\<forall>x \<in> set result. \<forall>y \<in> set rest. d x \<le> d y))"
proof -
  let ?s = "sort_key d c"
  have res: "result = take k ?s"
    unfolding result_def d_def collection_query_def ..
  have srt: "sorted (map d ?s)"
    by (rule sorted_sort_key)
  have c1: "length result = min (length c) k"
    unfolding res by simp
  have c2: "length c < k \<longrightarrow> mset result = mset c"
    unfolding res by simp
  have "sorted (take k (map d ?s))"
    using srt by (rule sorted_wrt_take)
  then have c3: "sorted (map d result)"
    unfolding res by (simp only: take_map)
  have "sorted (map d (take k ?s) @ map d (drop k ?s))"
    using srt by (simp only: map_append [symmetric] append_take_drop_id)
  then have near: "\<forall>x \<in> set (take k ?s). \<forall>y \<in> set (drop k ?s). d x \<le> d y"
    by (simp add: sorted_append)
  have "mset (take k ?s @ drop k ?s) = mset c"
    by (simp only: append_take_drop_id mset_sort)
  with near have c4: "\<exists>rest. mset (result @ rest) = mset c
                 \<and> (\<forall>x \<in> set result. \<forall>y \<in> set rest. d x \<le> d y)"
    unfolding res by (intro exI [of _ "drop k ?s"] conjI)
  from c1 c2 c3 c4 show ?thesis by (intro conjI)
qed

theorem query_bounds_witness:
  "length (collection_query (\<lambda>a b. if a \<le> b then b - a else a - b)
             [(''a1'', ''Sushi'', 5::nat), (''a2'', ''Adobo'', 1)] 0 3) = 2
   \<and> length (collection_query (\<lambda>a b. if a \<le> b then b - a else a - b)
             [(''a1'', ''Sushi'', 5::nat), (''a2'', ''Adobo'', 1), (''a3'', ''Pho'', 2),
              (''a4'', ''Taco'', 9)] 0 3) = 3"
proof -
  let ?dist = "\<lambda>(a::nat) (b::nat). if a \<le> b then b - a else a - b"
  have "length (collection_query ?dist [(''a1'', ''Sushi'', 5::nat), (''a2'', ''Adobo'', 1)] 0 3)
          = min (length [(''a1'', ''Sushi'', 5::nat), (''a2'', ''Adobo'', 1)]) 3"
    by (rule query_bounds [THEN conjunct1])
  then have 1: "length (collection_query ?dist [(''a1'', ''Sushi'', 5::nat), (''a2'', ''Adobo'', 1)] 0 3) = 2"
    by simp
  have "length (collection_query ?dist
             [(''a1'', ''Sushi'', 5::nat), (''a2'', ''Adobo'', 1), (''a3'', ''Pho'', 2),
              (''a4'', ''Taco'', 9)] 0 3)
          = min (length [(''a1'', ''Sushi'', 5::nat), (''a2'', ''Adobo'', 1), (''a3'', ''Pho'', 2),
              (''a4'', ''Taco'', 9)]) 3"
    by (rule query_bounds [THEN conjunct1])
  then have 2: "length (collection_query ?dist
             [(''a1'', ''Sushi'', 5::nat), (''a2'', ''Adobo'', 1), (''a3'', ''Pho'', 2),
              (''a4'', ''Taco'', 9)] 0 3) = 3"
    by simp
  from 1 2 show ?thesis by (rule conjI)
qed

end
